theory Spec2Isabelle
  imports Main "HOL-Library.Word"
begin

unbundle bit_operations_syntax

section \<open>Go runtime: panics and errors as values\<close>

text \<open>
  A Go panic is a value of the model. The two panics the cache code can raise are the
  failed type assertion \<^verbatim>\<open>elem.Value.(*entry)\<close> (the element carries no entry) and an
  index outside the shard array.
\<close>

datatype panic = InterfaceConversion | IndexOutOfRange

text \<open>
  Go \<^verbatim>\<open>error\<close> values seen by the handlers: \<^verbatim>\<open>sql.ErrNoRows\<close>, an error made by
  \<^verbatim>\<open>fmt.Errorf\<close> with its message, and any other error of \<^verbatim>\<open>database/sql\<close> or of the
  driver with its message.
\<close>

datatype error = ErrNoRows | Errorf string | SqlError string

section \<open>internal/cache: the single LRU cache\<close>

text \<open>
  \<^verbatim>\<open>type entry struct { key string; value string }\<close>. The field \<^verbatim>\<open>value\<close> is named
  \<open>val\<close> here.
\<close>

record entry =
  key :: string
  val :: string

text \<open>
  A \<^verbatim>\<open>*list.Element\<close> is an address. The elements' \<^verbatim>\<open>Value\<close> fields (each a
  \<^verbatim>\<open>*entry\<close>) live in \<open>heap\<close>, so that the map \<open>cache\<close> and the recency list \<open>lru\<close>
  alias the same entry through the element's address, as the pointers of the source do.
  \<open>nextElem\<close> is the allocator: the address the next \<^verbatim>\<open>PushFront\<close> returns. The list
  holds the addresses front (most recent) to back. \<open>capacity\<close> is a Go \<^verbatim>\<open>int\<close>; the
  counters are \<^verbatim>\<open>uint64\<close>. The mutex is not part of the sequential model.
\<close>

type_synonym elem = nat

record LRUCache =
  capacity :: int
  cache :: "string \<rightharpoonup> elem"
  lru :: "elem list"
  heap :: "elem \<rightharpoonup> entry"
  nextElem :: elem
  hits :: "64 word"
  misses :: "64 word"

subsection \<open>container/list, on a list of element addresses\<close>

definition Len :: "elem list \<Rightarrow> int" where
  "Len l = int (length l)"

definition Back :: "elem list \<Rightarrow> elem option" where
  "Back l = (if l = [] then None else Some (last l))"

definition PushFront :: "elem \<Rightarrow> elem list \<Rightarrow> elem list" where
  "PushFront e l = e # l"

text \<open>\<^verbatim>\<open>MoveToFront\<close> and \<^verbatim>\<open>Remove\<close> do nothing for an element that is not in the list.\<close>

definition MoveToFront :: "elem \<Rightarrow> elem list \<Rightarrow> elem list" where
  "MoveToFront e l = (if e \<in> set l then e # remove1 e l else l)"

definition Remove :: "elem \<Rightarrow> elem list \<Rightarrow> elem list" where
  "Remove e l = remove1 e l"

subsection \<open>NewLRUCache, Get, Put, Delete, GetStats\<close>

definition NewLRUCache :: "int \<Rightarrow> LRUCache" where
  "NewLRUCache cap =
     \<lparr>capacity = cap, cache = Map.empty, lru = [], heap = Map.empty, nextElem = 0,
      hits = 0, misses = 0\<rparr>"

definition LRUCache_Get :: "LRUCache \<Rightarrow> string \<Rightarrow> panic + (LRUCache \<times> string \<times> bool)" where
  "LRUCache_Get c k =
     (case cache c k of
        Some e \<Rightarrow>
          (case heap c e of
             None \<Rightarrow> Inl InterfaceConversion
           | Some en \<Rightarrow>
               Inr (c\<lparr>lru := MoveToFront e (lru c), hits := hits c + 1\<rparr>, val en, True))
      | None \<Rightarrow> Inr (c\<lparr>misses := misses c + 1\<rparr>, '''', False))"

definition LRUCache_Put :: "LRUCache \<Rightarrow> string \<Rightarrow> string \<Rightarrow> panic + LRUCache" where
  "LRUCache_Put c k v =
     (case cache c k of
        Some e \<Rightarrow>
          (case heap c e of
             None \<Rightarrow> Inl InterfaceConversion
           | Some en \<Rightarrow>
               Inr (c\<lparr>lru := MoveToFront e (lru c), heap := (heap c)(e \<mapsto> en\<lparr>val := v\<rparr>)\<rparr>))
      | None \<Rightarrow>
          (case (if Len (lru c) \<ge> capacity c
                 then (case Back (lru c) of
                         Some oldest \<Rightarrow>
                           (case heap c oldest of
                              None \<Rightarrow> Inl InterfaceConversion
                            | Some en \<Rightarrow>
                                Inr (c\<lparr>lru := Remove oldest (lru c),
                                       cache := (cache c)(key en := None)\<rparr>))
                       | None \<Rightarrow> Inr c)
                 else Inr c) of
             Inl p \<Rightarrow> Inl p
           | Inr c1 \<Rightarrow>
               Inr (c1\<lparr>lru := PushFront (nextElem c1) (lru c1),
                       heap := (heap c1)(nextElem c1 \<mapsto> \<lparr>key = k, val = v\<rparr>),
                       cache := (cache c1)(k \<mapsto> nextElem c1),
                       nextElem := Suc (nextElem c1)\<rparr>)))"

definition LRUCache_Delete :: "LRUCache \<Rightarrow> string \<Rightarrow> LRUCache" where
  "LRUCache_Delete c k =
     (case cache c k of
        Some e \<Rightarrow> c\<lparr>lru := Remove e (lru c), cache := (cache c)(k := None)\<rparr>
      | None \<Rightarrow> c)"

definition LRUCache_GetStats :: "LRUCache \<Rightarrow> 64 word \<times> 64 word" where
  "LRUCache_GetStats c = (hits c, misses c)"

text \<open>Operations on a partition, and running a sequence of them from a given state.\<close>

datatype op = Get string | Put string string | Delete string

fun LRUCache_apply :: "LRUCache \<Rightarrow> op \<Rightarrow> panic + LRUCache" where
  "LRUCache_apply c (Get k) =
     (case LRUCache_Get c k of Inl p \<Rightarrow> Inl p | Inr (c1, v, ok) \<Rightarrow> Inr c1)"
| "LRUCache_apply c (Put k v) = LRUCache_Put c k v"
| "LRUCache_apply c (Delete k) = Inr (LRUCache_Delete c k)"

fun LRUCache_run :: "LRUCache \<Rightarrow> op list \<Rightarrow> panic + LRUCache" where
  "LRUCache_run c [] = Inr c"
| "LRUCache_run c (x # xs) =
     (case LRUCache_apply c x of Inl p \<Rightarrow> Inl p | Inr c1 \<Rightarrow> LRUCache_run c1 xs)"

fun LRUCache_puts :: "LRUCache \<Rightarrow> (string \<times> string) list \<Rightarrow> panic + LRUCache" where
  "LRUCache_puts c [] = Inr c"
| "LRUCache_puts c ((k, v) # kvs) =
     (case LRUCache_Put c k v of Inl p \<Rightarrow> Inl p | Inr c1 \<Rightarrow> LRUCache_puts c1 kvs)"

text \<open>
  The entries of a partition in recency order, read through the element addresses, and
  the number of entries it holds: the size of the map and the length of the list.
\<close>

definition entries :: "LRUCache \<Rightarrow> entry option list" where
  "entries c = map (heap c) (lru c)"

section \<open>internal/cache: the sharded cache\<close>

definition SHARD_COUNT :: nat where
  "SHARD_COUNT = 32"

text \<open>
  \<^verbatim>\<open>type lruShard struct\<close> has the fields of \<^verbatim>\<open>LRUCache\<close> (capacity, cache, lru, hits,
  misses, and a mutex of another kind), so the two share one record type.
  \<^verbatim>\<open>ShardedCache\<close> owns the array of shards.
\<close>

type_synonym lruShard = LRUCache

record ShardedCache =
  shards :: "lruShard list"

text \<open>Go's \<^verbatim>\<open>/\<close> on \<^verbatim>\<open>int\<close> truncates towards zero.\<close>

definition go_div :: "int \<Rightarrow> int \<Rightarrow> int" where
  "go_div a b = sgn a * sgn b * (\<bar>a\<bar> div \<bar>b\<bar>)"

definition shardCap :: "int \<Rightarrow> int" where
  "shardCap totalCapacity =
     (let sc = go_div totalCapacity (int SHARD_COUNT) in if sc < 1 then 1 else sc)"

definition NewShardedCache :: "int \<Rightarrow> ShardedCache" where
  "NewShardedCache totalCapacity =
     \<lparr>shards = map (\<lambda>i. \<lparr>capacity = shardCap totalCapacity, cache = Map.empty, lru = [],
                           heap = Map.empty, nextElem = 0, hits = 0, misses = 0\<rparr>)
                   [0..<SHARD_COUNT]\<rparr>"

text \<open>
  FNV-1a over the bytes of the key, on \<^verbatim>\<open>uint64\<close>: the loop body is
  \<^verbatim>\<open>h ^= uint64(key[i]); h *= 1099511628211\<close>.
\<close>

definition hash :: "string \<Rightarrow> 64 word" where
  "hash k = fold (\<lambda>b h. (h XOR of_char b) * 1099511628211) k 14695981039346656037"

definition shardIndex :: "string \<Rightarrow> nat" where
  "shardIndex k = unat (hash k AND (of_nat SHARD_COUNT - 1))"

definition getShard :: "ShardedCache \<Rightarrow> string \<Rightarrow> panic + lruShard" where
  "getShard sc k =
     (if shardIndex k < length (shards sc) then Inr (shards sc ! shardIndex k)
      else Inl IndexOutOfRange)"

text \<open>The body of \<^verbatim>\<open>ShardedCache.Put\<close> on the shard that \<^verbatim>\<open>getShard\<close> returned.\<close>

definition lruShard_Put :: "lruShard \<Rightarrow> string \<Rightarrow> string \<Rightarrow> panic + lruShard" where
  "lruShard_Put shard k v =
     (case cache shard k of
        Some e \<Rightarrow>
          (case heap shard e of
             None \<Rightarrow> Inl InterfaceConversion
           | Some en \<Rightarrow>
               Inr (shard\<lparr>lru := MoveToFront e (lru shard),
                          heap := (heap shard)(e \<mapsto> en\<lparr>val := v\<rparr>)\<rparr>))
      | None \<Rightarrow>
          (case (if Len (lru shard) \<ge> capacity shard
                 then (case Back (lru shard) of
                         Some oldest \<Rightarrow>
                           (case heap shard oldest of
                              None \<Rightarrow> Inl InterfaceConversion
                            | Some en \<Rightarrow>
                                Inr (shard\<lparr>lru := Remove oldest (lru shard),
                                           cache := (cache shard)(key en := None)\<rparr>))
                       | None \<Rightarrow> Inr shard)
                 else Inr shard) of
             Inl p \<Rightarrow> Inl p
           | Inr s1 \<Rightarrow>
               Inr (s1\<lparr>lru := PushFront (nextElem s1) (lru s1),
                       heap := (heap s1)(nextElem s1 \<mapsto> \<lparr>key = k, val = v\<rparr>),
                       cache := (cache s1)(k \<mapsto> nextElem s1),
                       nextElem := Suc (nextElem s1)\<rparr>)))"

definition ShardedCache_Put :: "ShardedCache \<Rightarrow> string \<Rightarrow> string \<Rightarrow> panic + ShardedCache" where
  "ShardedCache_Put sc k v =
     (case getShard sc k of
        Inl p \<Rightarrow> Inl p
      | Inr shard \<Rightarrow>
          (case lruShard_Put shard k v of
             Inl p \<Rightarrow> Inl p
           | Inr shard1 \<Rightarrow> Inr (sc\<lparr>shards := (shards sc)[shardIndex k := shard1]\<rparr>)))"

fun lruShard_puts :: "lruShard \<Rightarrow> (string \<times> string) list \<Rightarrow> panic + lruShard" where
  "lruShard_puts s [] = Inr s"
| "lruShard_puts s ((k, v) # kvs) =
     (case lruShard_Put s k v of Inl p \<Rightarrow> Inl p | Inr s1 \<Rightarrow> lruShard_puts s1 kvs)"

fun ShardedCache_puts :: "ShardedCache \<Rightarrow> (string \<times> string) list \<Rightarrow> panic + ShardedCache" where
  "ShardedCache_puts sc [] = Inr sc"
| "ShardedCache_puts sc ((k, v) # kvs) =
     (case ShardedCache_Put sc k v of Inl p \<Rightarrow> Inl p | Inr sc1 \<Rightarrow> ShardedCache_puts sc1 kvs)"

section \<open>The invariants of a partition\<close>

text \<open>
  What Go's runtime and \<^verbatim>\<open>container/list\<close> guarantee by construction: a list holds
  an element once, and an element in use was allocated before the next allocation.
\<close>

definition list_ok :: "LRUCache \<Rightarrow> bool" where
  "list_ok c \<longleftrightarrow> distinct (lru c) \<and> (\<forall>e \<in> set (lru c). e < nextElem c)"

text \<open>
  The map and the recency list are mutually consistent: every key of the map leads to an
  element of the list whose entry has that key, and every element of the list carries
  an entry whose key the map sends back to that very element.
\<close>

definition consistent :: "LRUCache \<Rightarrow> bool" where
  "consistent c \<longleftrightarrow>
     (\<forall>k \<in> dom (cache c). \<exists>e en. cache c k = Some e \<and> e \<in> set (lru c) \<and>
                               heap c e = Some en \<and> key en = k) \<and>
     (\<forall>e \<in> set (lru c). \<exists>en. heap c e = Some en \<and> cache c (key en) = Some e)"

definition partition_inv :: "LRUCache \<Rightarrow> bool" where
  "partition_inv c \<longleftrightarrow> list_ok c \<and> consistent c"

text \<open>
  The two halves of the absent-key branch of \<^verbatim>\<open>Put\<close>, named for the proofs: the eviction
  check (lines 53 to 59) and the insertion at the front (lines 61 and 62).
\<close>

definition evict :: "LRUCache \<Rightarrow> panic + LRUCache" where
  "evict c =
     (if Len (lru c) \<ge> capacity c
      then (case Back (lru c) of
              Some oldest \<Rightarrow>
                (case heap c oldest of
                   None \<Rightarrow> Inl InterfaceConversion
                 | Some en \<Rightarrow>
                     Inr (c\<lparr>lru := Remove oldest (lru c), cache := (cache c)(key en := None)\<rparr>))
            | None \<Rightarrow> Inr c)
      else Inr c)"

definition push :: "LRUCache \<Rightarrow> string \<Rightarrow> string \<Rightarrow> LRUCache" where
  "push c1 k v =
     c1\<lparr>lru := PushFront (nextElem c1) (lru c1),
        heap := (heap c1)(nextElem c1 \<mapsto> \<lparr>key = k, val = v\<rparr>),
        cache := (cache c1)(k \<mapsto> nextElem c1),
        nextElem := Suc (nextElem c1)\<rparr>"

section \<open>The persistent store: database/sql behind PostgresDB\<close>

text \<open>
  The Postgres server and \<^verbatim>\<open>database/sql\<close> are the environment. The table
  \<^verbatim>\<open>kv_store\<close> is a map from key to value. When \<open>fault\<close> holds a message, the connection
  is broken and every statement returns that error; otherwise a statement does what SQL
  says. \<open>sqlResult\<close> is what \<^verbatim>\<open>result.RowsAffected()\<close> returns.
\<close>

record sqlDB =
  kv_store :: "string \<rightharpoonup> string"
  fault :: "string option"

type_synonym sqlResult = "error + int"

text \<open>\<^verbatim>\<open>INSERT INTO kv_store ... ON CONFLICT (key) DO UPDATE SET value = $2\<close>\<close>

definition Exec_insert :: "sqlDB \<Rightarrow> string \<Rightarrow> string \<Rightarrow> sqlDB \<times> (error + sqlResult)" where
  "Exec_insert d k v =
     (case fault d of
        Some m \<Rightarrow> (d, Inl (SqlError m))
      | None \<Rightarrow> (d\<lparr>kv_store := (kv_store d)(k \<mapsto> v)\<rparr>, Inr (Inr 1)))"

text \<open>\<^verbatim>\<open>SELECT value FROM kv_store WHERE key = $1\<close>, then \<^verbatim>\<open>Scan\<close>\<close>

definition QueryRow_Scan :: "sqlDB \<Rightarrow> string \<Rightarrow> error + string" where
  "QueryRow_Scan d k =
     (case fault d of
        Some m \<Rightarrow> Inl (SqlError m)
      | None \<Rightarrow> (case kv_store d k of None \<Rightarrow> Inl ErrNoRows | Some v \<Rightarrow> Inr v))"

text \<open>\<^verbatim>\<open>DELETE FROM kv_store WHERE key = $1\<close>\<close>

definition Exec_delete :: "sqlDB \<Rightarrow> string \<Rightarrow> sqlDB \<times> (error + sqlResult)" where
  "Exec_delete d k =
     (case fault d of
        Some m \<Rightarrow> (d, Inl (SqlError m))
      | None \<Rightarrow>
          (d\<lparr>kv_store := (kv_store d)(k := None)\<rparr>,
           Inr (Inr (if kv_store d k = None then 0 else 1))))"

text \<open>
  \<^verbatim>\<open>type PostgresDB struct { db *sql.DB }\<close>: the wrapper and the handle it wraps are one
  type here. A Go \<^verbatim>\<open>error\<close> result is an \<open>error option\<close>, \<open>None\<close> for \<^verbatim>\<open>nil\<close>.
\<close>

type_synonym PostgresDB = sqlDB

definition PostgresDB_Create :: "PostgresDB \<Rightarrow> string \<Rightarrow> string \<Rightarrow> PostgresDB \<times> error option" where
  "PostgresDB_Create p k v =
     (case Exec_insert p k v of
        (p1, Inl err) \<Rightarrow> (p1, Some err)
      | (p1, Inr res) \<Rightarrow> (p1, None))"

definition PostgresDB_Read :: "PostgresDB \<Rightarrow> string \<Rightarrow> string \<times> error option" where
  "PostgresDB_Read p k =
     (case QueryRow_Scan p k of
        Inl err \<Rightarrow>
          (if err = ErrNoRows then ('''', Some (Errorf ''key not found''))
           else ('''', Some err))
      | Inr v \<Rightarrow> (v, None))"

definition PostgresDB_Delete :: "PostgresDB \<Rightarrow> string \<Rightarrow> PostgresDB \<times> error option" where
  "PostgresDB_Delete p k =
     (case Exec_delete p k of
        (p1, Inl err) \<Rightarrow> (p1, Some err)
      | (p1, Inr res) \<Rightarrow>
          (case res of
             Inl err \<Rightarrow> (p1, Some err)
           | Inr rows \<Rightarrow>
               (if rows = 0 then (p1, Some (Errorf ''key not found'')) else (p1, None))))"

section \<open>internal/server: the handlers\<close>

record Request =
  Key :: string
  Value :: string

record Response =
  Success :: bool
  Value :: string
  Error :: string

text \<open>What a handler writes: the status code and the encoded \<^verbatim>\<open>Response\<close>.\<close>

type_synonym http_response = "nat \<times> Response"

definition StatusOK :: nat where
  "StatusOK = 200"

definition StatusCreated :: nat where
  "StatusCreated = 201"

definition StatusBadRequest :: nat where
  "StatusBadRequest = 400"

definition StatusNotFound :: nat where
  "StatusNotFound = 404"

definition StatusInternalServerError :: nat where
  "StatusInternalServerError = 500"

definition sendSuccess :: "string \<Rightarrow> nat \<Rightarrow> http_response" where
  "sendSuccess v status = (status, \<lparr>Success = True, Value = v, Error = ''''\<rparr>)"

definition sendError :: "string \<Rightarrow> nat \<Rightarrow> http_response" where
  "sendError errMsg status = (status, \<lparr>Success = False, Value = '''', Error = errMsg\<rparr>)"

text \<open>
  From here on \<open>cache\<close> is the field of \<^verbatim>\<open>KVServer\<close>; the map of a partition is written
  \<open>LRUCache.cache\<close>.
\<close>

record KVServer =
  cache :: LRUCache
  db :: PostgresDB

definition NewKVServer :: "int \<Rightarrow> PostgresDB \<Rightarrow> KVServer" where
  "NewKVServer cacheSize d = \<lparr>cache = NewLRUCache cacheSize, db = d\<rparr>"

text \<open>
  The body of a POST request after \<^verbatim>\<open>io.ReadAll\<close> and \<^verbatim>\<open>json.Unmarshal\<close>: the read
  failed, the bytes are not JSON for a \<^verbatim>\<open>Request\<close>, or they decode to one.
\<close>

datatype body = ReadFailed | InvalidJSON | JSON Request

definition handleCreate :: "KVServer \<Rightarrow> body \<Rightarrow> panic + (KVServer \<times> http_response)" where
  "handleCreate s r =
     (case r of
        ReadFailed \<Rightarrow> Inr (s, sendError ''failed to read body'' StatusBadRequest)
      | InvalidJSON \<Rightarrow> Inr (s, sendError ''invalid json'' StatusBadRequest)
      | JSON req \<Rightarrow>
          (if Key req = '''' then Inr (s, sendError ''key is required'' StatusBadRequest)
           else
             (case PostgresDB_Create (db s) (Key req) (Request.Value req) of
                (d1, Some err) \<Rightarrow>
                  Inr (s\<lparr>db := d1\<rparr>, sendError ''database error'' StatusInternalServerError)
              | (d1, None) \<Rightarrow>
                  (case LRUCache_Put (cache s) (Key req) (Request.Value req) of
                     Inl p \<Rightarrow> Inl p
                   | Inr c1 \<Rightarrow>
                       Inr (s\<lparr>cache := c1, db := d1\<rparr>, sendSuccess '''' StatusCreated)))))"

definition handleRead :: "KVServer \<Rightarrow> string \<Rightarrow> panic + (KVServer \<times> http_response)" where
  "handleRead s k =
     (if k = '''' then Inr (s, sendError ''key is required'' StatusBadRequest)
      else
        (case LRUCache_Get (cache s) k of
           Inl p \<Rightarrow> Inl p
         | Inr (c1, v, ok) \<Rightarrow>
             (if ok then Inr (s\<lparr>cache := c1\<rparr>, sendSuccess v StatusOK)
              else
                (case PostgresDB_Read (db s) k of
                   (v1, Some err) \<Rightarrow>
                     Inr (s\<lparr>cache := c1\<rparr>, sendError ''key not found'' StatusNotFound)
                 | (v1, None) \<Rightarrow>
                     (case LRUCache_Put c1 k v1 of
                        Inl p \<Rightarrow> Inl p
                      | Inr c2 \<Rightarrow> Inr (s\<lparr>cache := c2\<rparr>, sendSuccess v1 StatusOK))))))"

definition handleDelete :: "KVServer \<Rightarrow> string \<Rightarrow> panic + (KVServer \<times> http_response)" where
  "handleDelete s k =
     (if k = '''' then Inr (s, sendError ''key is required'' StatusBadRequest)
      else
        (case PostgresDB_Delete (db s) k of
           (d1, Some err) \<Rightarrow>
             Inr (s\<lparr>db := d1\<rparr>, sendError ''key not found'' StatusNotFound)
         | (d1, None) \<Rightarrow>
             Inr (s\<lparr>cache := LRUCache_Delete (cache s) k, db := d1\<rparr>,
                  sendSuccess '''' StatusOK)))"

definition GetCacheStats :: "KVServer \<Rightarrow> 64 word \<times> 64 word" where
  "GetCacheStats s = LRUCache_GetStats (cache s)"


text \<open>A partition of capacity 2 that holds the one entry \<open>a:1\<close>.\<close>

definition one_entry :: LRUCache where
  "one_entry = \<lparr>capacity = 2, cache = [''a'' \<mapsto> 0], lru = [0],
                heap = [0 \<mapsto> \<lparr>key = ''a'', val = ''1''\<rparr>], nextElem = 1, hits = 0, misses = 0\<rparr>"

section \<open>The partition invariant is preserved\<close>

lemma partition_inv_NewLRUCache: "partition_inv (NewLRUCache cap)"
  by (simp add: partition_inv_def list_ok_def consistent_def NewLRUCache_def)

lemma insert_remove1: "e \<in> set l \<Longrightarrow> insert e (set (remove1 e l)) = set l"
  by (induction l) auto

lemma MoveToFront_set: "set (MoveToFront e l) = set l"
  by (simp add: MoveToFront_def insert_remove1)

lemma MoveToFront_distinct: "distinct l \<Longrightarrow> distinct (MoveToFront e l)"
  by (auto simp: MoveToFront_def)

lemma MoveToFront_length: "length (MoveToFront e l) = length l"
proof (cases "e \<in> set l")
  case True
  then have "0 < length l" by (rule length_pos_if_in_set)
  with True show ?thesis by (simp add: MoveToFront_def length_remove1)
next
  case False
  then show ?thesis by (simp add: MoveToFront_def)
qed

lemma Get_inv:
  assumes "partition_inv c"
  shows "\<exists>c1 v ok. LRUCache_Get c k = Inr (c1, v, ok) \<and> partition_inv c1"
proof (cases "LRUCache.cache c k")
  case None
  then show ?thesis using assms
    by (auto simp: LRUCache_Get_def partition_inv_def list_ok_def consistent_def)
next
  case (Some e)
  with assms obtain en where en: "heap c e = Some en"
    unfolding partition_inv_def consistent_def by (auto simp: dom_def)
  show ?thesis using assms Some en
    by (auto simp: LRUCache_Get_def partition_inv_def list_ok_def consistent_def MoveToFront_set MoveToFront_distinct)
qed

lemma Delete_inv:
  assumes "partition_inv c"
  shows "partition_inv (LRUCache_Delete c k)"
proof (cases "LRUCache.cache c k")
  case None
  then show ?thesis using assms by (simp add: LRUCache_Delete_def)
next
  case (Some e)
  from assms have d: "distinct (lru c)" and lt: "\<forall>x \<in> set (lru c). x < nextElem c"
    and a: "\<forall>k' \<in> dom (LRUCache.cache c). \<exists>e en. LRUCache.cache c k' = Some e \<and> e \<in> set (lru c) \<and> heap c e = Some en \<and> key en = k'"
    and b: "\<forall>x \<in> set (lru c). \<exists>en. heap c x = Some en \<and> LRUCache.cache c (key en) = Some x"
    unfolding partition_inv_def list_ok_def consistent_def by auto
  have "list_ok (LRUCache_Delete c k)"
    using d lt Some by (auto simp: list_ok_def LRUCache_Delete_def Remove_def)
  moreover have "consistent (LRUCache_Delete c k)"
    unfolding consistent_def
  proof (intro conjI ballI)
    fix k' assume "k' \<in> dom (LRUCache.cache (LRUCache_Delete c k))"
    then have k': "k' \<noteq> k" "k' \<in> dom (LRUCache.cache c)"
      using Some by (auto simp: LRUCache_Delete_def split: if_splits)
    with a obtain e' en where *: "LRUCache.cache c k' = Some e'" "e' \<in> set (lru c)" "heap c e' = Some en" "key en = k'"
      by blast
    have "e' \<noteq> e"
    proof
      assume "e' = e"
      from b Some a have "LRUCache.cache c k = Some e" by simp
      with a[rule_format, of k] obtain en2 where "heap c e = Some en2" "key en2 = k" by (auto simp: dom_def)
      with * \<open>e' = e\<close> k' show False by simp
    qed
    with * k' Some d show "\<exists>e en. LRUCache.cache (LRUCache_Delete c k) k' = Some e \<and> e \<in> set (lru (LRUCache_Delete c k)) \<and>
          heap (LRUCache_Delete c k) e = Some en \<and> key en = k'"
      by (auto simp: LRUCache_Delete_def Remove_def)
  next
    fix x assume "x \<in> set (lru (LRUCache_Delete c k))"
    then have x: "x \<in> set (lru c)" "x \<noteq> e"
      using Some d by (auto simp: LRUCache_Delete_def Remove_def)
    with b obtain en where *: "heap c x = Some en" "LRUCache.cache c (key en) = Some x" by blast
    with x Some have "key en \<noteq> k" by auto
    with * Some show "\<exists>en. heap (LRUCache_Delete c k) x = Some en \<and> LRUCache.cache (LRUCache_Delete c k) (key en) = Some x"
      by (auto simp: LRUCache_Delete_def)
  qed
  ultimately show ?thesis by (simp add: partition_inv_def)
qed


lemma Put_absent:
  "LRUCache.cache c k = None \<Longrightarrow>
   LRUCache_Put c k v = (case evict c of Inl p \<Rightarrow> Inl p | Inr c1 \<Rightarrow> Inr (push c1 k v))"
  unfolding LRUCache_Put_def evict_def push_def by simp

lemma Put_present:
  "LRUCache.cache c k = Some e \<Longrightarrow> heap c e = Some en \<Longrightarrow>
   LRUCache_Put c k v =
     Inr (c\<lparr>lru := MoveToFront e (lru c), heap := (heap c)(e \<mapsto> en\<lparr>val := v\<rparr>)\<rparr>)"
  by (simp add: LRUCache_Put_def)

lemma evict_cases:
  assumes "partition_inv c"
  shows "evict c = Inr c \<and> (Len (lru c) < capacity c \<or> lru c = []) \<or>
         (\<exists>en. Len (lru c) \<ge> capacity c \<and> lru c \<noteq> [] \<and> heap c (last (lru c)) = Some en \<and>
               LRUCache.cache c (key en) = Some (last (lru c)) \<and> evict c = Inr (LRUCache_Delete c (key en)))"
proof (cases "Len (lru c) \<ge> capacity c \<and> lru c \<noteq> []")
  case False
  then show ?thesis by (auto simp: evict_def Back_def)
next
  case True
  then have "last (lru c) \<in> set (lru c)" by simp
  with assms obtain en where en: "heap c (last (lru c)) = Some en" "LRUCache.cache c (key en) = Some (last (lru c))"
    unfolding partition_inv_def consistent_def by blast
  with True have "evict c = Inr (LRUCache_Delete c (key en))"
    by (simp add: evict_def Back_def LRUCache_Delete_def)
  with True en show ?thesis by blast
qed

lemma Delete_fields:
  "nextElem (LRUCache_Delete c k) = nextElem c"
  "capacity (LRUCache_Delete c k) = capacity c"
  "heap (LRUCache_Delete c k) = heap c"
  "hits (LRUCache_Delete c k) = hits c"
  "misses (LRUCache_Delete c k) = misses c"
  "LRUCache.cache (LRUCache_Delete c k) = (LRUCache.cache c)(k := None)"
  by (auto simp: LRUCache_Delete_def split: option.splits)

lemma evict_inv:
  assumes "partition_inv c" "LRUCache.cache c k = None"
  shows "\<exists>c1. evict c = Inr c1 \<and> partition_inv c1 \<and> LRUCache.cache c1 k = None \<and> nextElem c1 = nextElem c \<and>
              capacity c1 = capacity c \<and> hits c1 = hits c \<and> misses c1 = misses c"
  using evict_cases[OF assms(1)] assms Delete_inv[OF assms(1)]
  by (auto simp: Delete_fields)

lemma push_inv:
  assumes "partition_inv c1" "LRUCache.cache c1 k = None"
  shows "partition_inv (push c1 k v)"
proof -
  let ?n = "nextElem c1"
  from assms have d: "distinct (lru c1)" and lt: "\<forall>x \<in> set (lru c1). x < ?n"
    and a: "\<forall>k' \<in> dom (LRUCache.cache c1). \<exists>e en. LRUCache.cache c1 k' = Some e \<and> e \<in> set (lru c1) \<and> heap c1 e = Some en \<and> key en = k'"
    and b: "\<forall>x \<in> set (lru c1). \<exists>en. heap c1 x = Some en \<and> LRUCache.cache c1 (key en) = Some x"
    unfolding partition_inv_def list_ok_def consistent_def by auto
  from lt have fresh: "?n \<notin> set (lru c1)" by auto
  have "list_ok (push c1 k v)"
    using d lt fresh by (auto simp: list_ok_def push_def PushFront_def less_Suc_eq)
  moreover have "consistent (push c1 k v)"
    unfolding consistent_def
  proof (intro conjI ballI)
    fix k' assume k': "k' \<in> dom (LRUCache.cache (push c1 k v))"
    show "\<exists>e en. LRUCache.cache (push c1 k v) k' = Some e \<and> e \<in> set (lru (push c1 k v)) \<and>
                 heap (push c1 k v) e = Some en \<and> key en = k'"
    proof (cases "k' = k")
      case True
      then show ?thesis by (simp add: push_def PushFront_def)
    next
      case False
      with k' have "k' \<in> dom (LRUCache.cache c1)" by (auto simp: push_def)
      with a obtain e en where *: "LRUCache.cache c1 k' = Some e" "e \<in> set (lru c1)" "heap c1 e = Some en" "key en = k'"
        by blast
      with fresh have "e \<noteq> ?n" by auto
      with * False show ?thesis by (simp add: push_def PushFront_def)
    qed
  next
    fix x assume x: "x \<in> set (lru (push c1 k v))"
    show "\<exists>en. heap (push c1 k v) x = Some en \<and> LRUCache.cache (push c1 k v) (key en) = Some x"
    proof (cases "x = ?n")
      case True
      then show ?thesis by (simp add: push_def)
    next
      case False
      with x have "x \<in> set (lru c1)" by (simp add: push_def PushFront_def)
      with b obtain en where *: "heap c1 x = Some en" "LRUCache.cache c1 (key en) = Some x" by blast
      with assms(2) have "key en \<noteq> k" by auto
      with * False show ?thesis by (simp add: push_def)
    qed
  qed
  ultimately show ?thesis by (simp add: partition_inv_def)
qed

lemma Put_present_inv:
  assumes "partition_inv c" "LRUCache.cache c k = Some e"
  shows "\<exists>c1. LRUCache_Put c k v = Inr c1 \<and> partition_inv c1"
proof -
  from assms have d: "distinct (lru c)" and lt: "\<forall>x \<in> set (lru c). x < nextElem c"
    and a: "\<forall>k' \<in> dom (LRUCache.cache c). \<exists>e en. LRUCache.cache c k' = Some e \<and> e \<in> set (lru c) \<and> heap c e = Some en \<and> key en = k'"
    and b: "\<forall>x \<in> set (lru c). \<exists>en. heap c x = Some en \<and> LRUCache.cache c (key en) = Some x"
    unfolding partition_inv_def list_ok_def consistent_def by auto
  from a assms(2) obtain en where en: "e \<in> set (lru c)" "heap c e = Some en" "key en = k"
    by (auto simp: dom_def)
  let ?c1 = "c\<lparr>lru := MoveToFront e (lru c), heap := (heap c)(e \<mapsto> en\<lparr>val := v\<rparr>)\<rparr>"
  have put: "LRUCache_Put c k v = Inr ?c1"
    using assms(2) en(2) by (rule Put_present)
  have "list_ok ?c1"
    using d lt by (simp add: list_ok_def MoveToFront_set MoveToFront_distinct)
  moreover have "consistent ?c1"
    unfolding consistent_def
  proof (intro conjI ballI)
    fix k' assume "k' \<in> dom (LRUCache.cache ?c1)"
    then have "k' \<in> dom (LRUCache.cache c)" by simp
    with a obtain e' en' where *: "LRUCache.cache c k' = Some e'" "e' \<in> set (lru c)" "heap c e' = Some en'" "key en' = k'"
      by blast
    then show "\<exists>e en. LRUCache.cache ?c1 k' = Some e \<and> e \<in> set (lru ?c1) \<and> heap ?c1 e = Some en \<and> key en = k'"
      using en by (auto simp: MoveToFront_set)
  next
    fix x assume "x \<in> set (lru ?c1)"
    then have "x \<in> set (lru c)" by (simp add: MoveToFront_set)
    with b obtain en' where *: "heap c x = Some en'" "LRUCache.cache c (key en') = Some x" by blast
    then show "\<exists>en. heap ?c1 x = Some en \<and> LRUCache.cache ?c1 (key en) = Some x"
      using en by auto
  qed
  ultimately show ?thesis using put by (simp add: partition_inv_def)
qed

lemma Put_inv:
  assumes "partition_inv c"
  shows "\<exists>c1. LRUCache_Put c k v = Inr c1 \<and> partition_inv c1"
proof (cases "LRUCache.cache c k")
  case (Some e)
  with assms show ?thesis by (rule Put_present_inv)
next
  case None
  from evict_inv[OF assms None] obtain c1 where "evict c = Inr c1" "partition_inv c1" "LRUCache.cache c1 k = None"
    by blast
  then show ?thesis using None by (simp add: Put_absent push_inv)
qed

section \<open>The number of entries\<close>

lemma lruShard_Put_eq: "lruShard_Put s k v = LRUCache_Put s k v"
  by (simp add: lruShard_Put_def LRUCache_Put_def)

lemma partition_size:
  assumes "partition_inv c"
  shows "card (dom (LRUCache.cache c)) = length (lru c)"
proof -
  from assms have d: "distinct (lru c)"
    and a: "\<forall>k' \<in> dom (LRUCache.cache c). \<exists>e en. LRUCache.cache c k' = Some e \<and> e \<in> set (lru c) \<and> heap c e = Some en \<and> key en = k'"
    and b: "\<forall>x \<in> set (lru c). \<exists>en. heap c x = Some en \<and> LRUCache.cache c (key en) = Some x"
    unfolding partition_inv_def list_ok_def consistent_def by auto
  let ?f = "\<lambda>e. key (the (heap c e))"
  have inj: "inj_on ?f (set (lru c))"
  proof (rule inj_onI)
    fix x y assume xy: "x \<in> set (lru c)" "y \<in> set (lru c)" "?f x = ?f y"
    from b xy(1) obtain ex where ex: "heap c x = Some ex" "LRUCache.cache c (key ex) = Some x" by blast
    from b xy(2) obtain ey where ey: "heap c y = Some ey" "LRUCache.cache c (key ey) = Some y" by blast
    from xy(3) ex ey show "x = y" by simp
  qed
  have img: "?f ` set (lru c) = dom (LRUCache.cache c)"
  proof (intro equalityI subsetI)
    fix k assume "k \<in> ?f ` set (lru c)"
    then obtain x where x: "x \<in> set (lru c)" "k = ?f x" by blast
    with b obtain ex where "heap c x = Some ex" "LRUCache.cache c (key ex) = Some x" by blast
    with x show "k \<in> dom (LRUCache.cache c)" by auto
  next
    fix k assume "k \<in> dom (LRUCache.cache c)"
    with a obtain e en where "e \<in> set (lru c)" "heap c e = Some en" "key en = k" by blast
    then show "k \<in> ?f ` set (lru c)" by force
  qed
  have "card (dom (LRUCache.cache c)) = card (set (lru c))"
    using card_image[OF inj] img by simp
  with d show ?thesis by (simp add: distinct_card)
qed

lemma evict_length:
  assumes "evict c = Inr c1"
  shows "capacity c1 = capacity c \<and>
         (if Len (lru c) \<ge> capacity c \<and> lru c \<noteq> [] then Suc (length (lru c1)) = length (lru c)
          else lru c1 = lru c)"
  using assms
  by (auto simp: evict_def Back_def Remove_def length_remove1 split: if_splits option.splits)

lemma Put_length:
  assumes "LRUCache_Put c k v = Inr c1" "int (length (lru c)) \<le> n" "capacity c \<le> n" "1 \<le> n"
  shows "int (length (lru c1)) \<le> n \<and> capacity c1 = capacity c"
proof (cases "LRUCache.cache c k")
  case (Some e)
  with assms show ?thesis
    by (auto simp: LRUCache_Put_def MoveToFront_length split: option.splits)
next
  case None
  with assms(1) obtain c0 where c0: "evict c = Inr c0" "c1 = push c0 k v"
    by (auto simp: Put_absent split: sum.splits)
  from evict_length[OF c0(1)] assms(2-4) have "int (length (lru c0)) + 1 \<le> n \<and> capacity c0 = capacity c"
    by (auto simp: Len_def split: if_splits)
  with c0(2) show ?thesis by (simp add: push_def PushFront_def)
qed

lemma Get_length:
  assumes "LRUCache_Get c k = Inr (c1, v, ok)"
  shows "length (lru c1) = length (lru c) \<and> capacity c1 = capacity c"
  using assms
  by (auto simp: LRUCache_Get_def MoveToFront_length split: option.splits)

lemma Delete_length:
  "length (lru (LRUCache_Delete c k)) \<le> length (lru c)"
  by (simp add: LRUCache_Delete_def Remove_def length_remove1 split: option.splits)

lemma apply_bound:
  assumes "partition_inv c" "int (length (lru c)) \<le> n" "capacity c \<le> n" "1 \<le> n"
  shows "\<exists>c1. LRUCache_apply c x = Inr c1 \<and> partition_inv c1 \<and>
              int (length (lru c1)) \<le> n \<and> capacity c1 = capacity c"
proof (cases x)
  case (Get k)
  from Get_inv[OF assms(1), of k] obtain c1 v ok
    where g: "LRUCache_Get c k = Inr (c1, v, ok)" "partition_inv c1" by blast
  with Get_length[OF g(1)] assms(2) Get show ?thesis by simp
next
  case (Put k v)
  from Put_inv[OF assms(1), of k v] obtain c1
    where p: "LRUCache_Put c k v = Inr c1" "partition_inv c1" by blast
  with Put_length[OF p(1) assms(2-4)] Put show ?thesis by simp
next
  case (Delete k)
  have "int (length (lru (LRUCache_Delete c k))) \<le> n"
    using Delete_length[of c k] assms(2) by linarith
  with Delete_inv[OF assms(1), of k] Delete show ?thesis
    by (simp add: Delete_fields)
qed

lemma run_bound:
  assumes "partition_inv c" "int (length (lru c)) \<le> n" "capacity c \<le> n" "1 \<le> n"
  shows "\<exists>c1. LRUCache_run c xs = Inr c1 \<and> partition_inv c1 \<and>
              int (length (lru c1)) \<le> n \<and> capacity c1 = capacity c"
  using assms
proof (induction xs arbitrary: c)
  case Nil
  then show ?case by simp
next
  case (Cons x xs)
  from apply_bound[OF Cons.prems, of x] obtain c1
    where c1: "LRUCache_apply c x = Inr c1" "partition_inv c1"
      "int (length (lru c1)) \<le> n" "capacity c1 = capacity c" by blast
  with Cons.prems have "capacity c1 \<le> n" by simp
  from Cons.IH[OF c1(2) c1(3) this Cons.prems(4)] c1 show ?case by auto
qed

lemma puts_as_run:
  "LRUCache_puts c kvs = LRUCache_run c (map (\<lambda>(k, v). Put k v) kvs)"
  by (induction kvs arbitrary: c) (auto split: sum.splits)

lemma lruShard_puts_eq: "lruShard_puts s kvs = LRUCache_puts s kvs"
  by (induction kvs arbitrary: s) (auto simp: lruShard_Put_eq split: sum.splits)

lemma New_fields:
  "lru (NewLRUCache C) = []" "capacity (NewLRUCache C) = C"
  "LRUCache.cache (NewLRUCache C) = Map.empty" "nextElem (NewLRUCache C) = 0"
  "hits (NewLRUCache C) = 0" "misses (NewLRUCache C) = 0"
  by (simp_all add: NewLRUCache_def)

text \<open>
  C3. Each of \<^verbatim>\<open>Get\<close>, \<^verbatim>\<open>Put\<close> and \<^verbatim>\<open>Delete\<close>, started in a state where the map and the
  recency list are mutually consistent, returns without a panic and leaves them mutually
  consistent (the list still holds each element once, below the allocator).
\<close>

theorem partition_ops_preserve_consistency:
  assumes "list_ok c" and "consistent c"
  shows "(\<exists>c1 v ok. LRUCache_Get c k = Inr (c1, v, ok) \<and> list_ok c1 \<and> consistent c1) \<and>
         (\<exists>c1. LRUCache_Put c k v = Inr c1 \<and> list_ok c1 \<and> consistent c1) \<and>
         list_ok (LRUCache_Delete c k) \<and> consistent (LRUCache_Delete c k)"
proof -
  from assms have inv: "partition_inv c" by (simp add: partition_inv_def)
  from Get_inv[OF inv, of k] have "\<exists>c1 v ok. LRUCache_Get c k = Inr (c1, v, ok) \<and> list_ok c1 \<and> consistent c1"
    by (simp add: partition_inv_def)
  moreover from Put_inv[OF inv, of k v] have "\<exists>c1. LRUCache_Put c k v = Inr c1 \<and> list_ok c1 \<and> consistent c1"
    by (simp add: partition_inv_def)
  moreover from Delete_inv[OF inv, of k] have "list_ok (LRUCache_Delete c k) \<and> consistent (LRUCache_Delete c k)"
    by (simp add: partition_inv_def)
  ultimately show ?thesis by blast
qed

theorem partition_ops_preserve_consistency_witness:
  "list_ok one_entry \<and> consistent one_entry \<and>
   (\<exists>c1 v ok. LRUCache_Get one_entry ''a'' = Inr (c1, v, ok) \<and> list_ok c1 \<and> consistent c1) \<and>
   (\<exists>c1. LRUCache_Put one_entry ''a'' ''2'' = Inr c1 \<and> list_ok c1 \<and> consistent c1) \<and>
   list_ok (LRUCache_Delete one_entry ''a'') \<and> consistent (LRUCache_Delete one_entry ''a'')"
proof -
  have l: "list_ok one_entry" by (simp add: list_ok_def one_entry_def)
  have c: "consistent one_entry" by (simp add: consistent_def one_entry_def)
  from l c partition_ops_preserve_consistency[OF l c, of "''a''" "''2''"] show ?thesis by blast
qed

end
